theory Spec2Isabelle
  imports Main "HOL-Library.Sublist"
begin

section \<open>The slug resolver of webpack.config.js\<close>

text \<open>
  The module computes, once at load time, the list \<^verbatim>\<open>templates\<close> by mapping a callback
  over the content descriptors read from \<^verbatim>\<open>data.yaml\<close>. The callback destructures the slug
  with the regular expression \<^verbatim>\<open>/^(.*?)(\w[\w\-\.]*\/?)$/\<close>, rewrites the first capture
  group in place and throws \<^verbatim>\<open>Error(`Incorrect slug: ${value.slug}`)\<close> when the expression
  does not match.

  JavaScript strings are sequences of 16-bit code units; they are modelled by \<^typ>\<open>string\<close>,
  whose characters are 8-bit. All characters the source names (\<^verbatim>\<open>/\<close>, \<^verbatim>\<open>.\<close>, \<^verbatim>\<open>-\<close>, the word
  characters, line feed and carriage return) are in that range; the two line terminators
  U+2028 and U+2029 are not and have no counterpart in the model.
\<close>

subsection \<open>Data\<close>

text \<open>
  An element of \<^verbatim>\<open>data\<close>: the fields \<^verbatim>\<open>value.slug\<close>, \<^verbatim>\<open>value.template\<close>, \<^verbatim>\<open>value.context\<close>
  (the last one primed, its name being a keyword of the theory language).
\<close>

record 'c descriptor =
  slug :: string
  template :: string
  context' :: 'c

text \<open>
  The object literal the callback returns, \<^verbatim>\<open>{ from: ..., to: ..., context: ... }\<close>.
  The field names carry a prefix because \<^verbatim>\<open>from\<close> is a keyword of the proof language.
\<close>

record 'c mapping =
  out_from :: string
  out_to :: string
  out_context :: 'c

text \<open>The thrown \<^verbatim>\<open>Error\<close> object, with its message.\<close>

datatype error = Error string

subsection \<open>The atoms of the regular expressions\<close>

text \<open>\<^verbatim>\<open>\w\<close> without the unicode flag: the class \<^verbatim>\<open>[A-Za-z0-9_]\<close>.\<close>

definition is_word :: "char \<Rightarrow> bool" where
  "is_word c \<longleftrightarrow>
     c \<in> set ''abcdefghijklmnopqrstuvwxyzABCDEFGHIJKLMNOPQRSTUVWXYZ0123456789_''"

text \<open>The class \<^verbatim>\<open>[\w\-\.]\<close>.\<close>

definition is_segment_char :: "char \<Rightarrow> bool" where
  "is_segment_char c \<longleftrightarrow> is_word c \<or> c = CHR ''-'' \<or> c = CHR ''.''"

text \<open>
  The characters that \<^verbatim>\<open>.\<close> does not match (no \<^verbatim>\<open>s\<close> flag): line feed and carriage return.
\<close>

definition is_line_terminator :: "char \<Rightarrow> bool" where
  "is_line_terminator c \<longleftrightarrow> c = CHR 0x0A \<or> c = CHR 0x0D"

subsection \<open>The slug pattern\<close>

text \<open>
  \<^verbatim>\<open>[\w\-\.]*\/?$\<close> at the current position: the star is greedy and the separator is not in
  its class, so giving characters back never helps; the match succeeds exactly when the
  run of class characters is followed by the end of the input or by one separator and the
  end of the input.
\<close>

fun match_segment_rest :: "string \<Rightarrow> bool" where
  "match_segment_rest [] = True"
| "match_segment_rest (c # cs) =
     (if is_segment_char c then match_segment_rest cs else c = CHR ''/'' \<and> cs = [])"

text \<open>The second group up to the end of the input, \<^verbatim>\<open>(\w[\w\-\.]*\/?)$\<close>.\<close>

fun match_segment :: "string \<Rightarrow> bool" where
  "match_segment [] = False"
| "match_segment (c # cs) = (is_word c \<and> match_segment_rest cs)"

text \<open>
  \<^verbatim>\<open>/^(.*?)(\w[\w\-\.]*\/?)$/.exec(value.slug)\<close>. The first group is lazy: the matcher tries
  the second group at the current position first and only when that fails lets the first
  group take one more character, which must not be a line terminator. The result is
  \<open>None\<close> for \<^verbatim>\<open>null\<close> and \<open>Some (path[1], path[2])\<close> otherwise.
\<close>

fun exec_path :: "string \<Rightarrow> (string \<times> string) option" where
  "exec_path [] = None"
| "exec_path (c # cs) =
     (if match_segment (c # cs) then Some ([], c # cs)
      else if is_line_terminator c then None
      else (case exec_path cs of
              None \<Rightarrow> None
            | Some (p1, p2) \<Rightarrow> Some (c # p1, p2)))"

subsection \<open>The rewriting of the first group\<close>

text \<open>
  \<^verbatim>\<open>path[2].replace(/\.\w+$/, '')\<close>: the leftmost position where a dot is followed by one
  or more word characters and the end of the input; the match reaches the end, so
  replacing it by the empty string keeps the text before it. Without a match the string
  is returned as it is.
\<close>

fun replace_ext :: "string \<Rightarrow> string" where
  "replace_ext [] = []"
| "replace_ext (c # cs) =
     (if c = CHR ''.'' \<and> cs \<noteq> [] \<and> list_all is_word cs then []
      else c # replace_ext cs)"

text \<open>\<^verbatim>\<open>s.endsWith('/')\<close>.\<close>

definition endsWith_slash :: "string \<Rightarrow> bool" where
  "endsWith_slash s \<longleftrightarrow> s \<noteq> [] \<and> last s = CHR ''/''"

text \<open>
  The three branches that assign \<^verbatim>\<open>path[1] += ...\<close>, in the order of the source:
  \<^verbatim>\<open>path[2].indexOf('.') === -1\<close>, then \<^verbatim>\<open>path[2] !== 'index.html'\<close>, then the rest.
  The function returns the new value of \<^verbatim>\<open>path[1]\<close>.
\<close>

definition rewrite_path1 :: "string \<Rightarrow> string \<Rightarrow> string" where
  "rewrite_path1 p1 p2 =
     (if CHR ''.'' \<notin> set p2 then
        p1 @ (if endsWith_slash p2 then p2 @ ''index.html'' else p2 @ ''/index.html'')
      else if p2 \<noteq> ''index.html'' then
        p1 @ replace_ext p2 @ ''/index.html''
      else
        p1 @ ''index.html'')"

subsection \<open>The callback and the list\<close>

text \<open>
  The destination \<^verbatim>\<open>`${BUILD_DIR}/${path[1]}`\<close> of one slug, or the thrown error.
  \<^verbatim>\<open>BUILD_DIR\<close> is \<^verbatim>\<open>path.join(__dirname, 'dist')\<close> and is a parameter here.
  The statement \<^verbatim>\<open>value.slug.replace('^/', '')\<close> under \<^verbatim>\<open>value.slug.startsWith('/')\<close> is an
  expression whose value is dropped; strings are immutable, so the slug reaches the
  regular expression unchanged. The test \<^verbatim>\<open>path && path[2]\<close> fails only for \<^verbatim>\<open>null\<close>,
  since a matched second group has at least one character.
\<close>

definition resolve :: "string \<Rightarrow> string \<Rightarrow> error + string" where
  "resolve BUILD_DIR s =
     (case exec_path s of
        None \<Rightarrow> Inl (Error (''Incorrect slug: '' @ s))
      | Some (p1, p2) \<Rightarrow>
          if p2 \<noteq> [] then Inr (BUILD_DIR @ ''/'' @ rewrite_path1 p1 p2)
          else Inl (Error (''Incorrect slug: '' @ s)))"

text \<open>The callback of \<^verbatim>\<open>data.map\<close>; \<^verbatim>\<open>dirname\<close> stands for \<^verbatim>\<open>__dirname\<close>.\<close>

definition template_entry ::
  "string \<Rightarrow> string \<Rightarrow> 'c descriptor \<Rightarrow> error + 'c mapping" where
  "template_entry dirname BUILD_DIR v =
     (case resolve BUILD_DIR (slug v) of
        Inl e \<Rightarrow> Inl e
      | Inr dest \<Rightarrow>
          Inr \<lparr> out_from = dirname @ ''/'' @ template v,
                out_to = dest,
                out_context = context' v \<rparr>)"

text \<open>
  \<^verbatim>\<open>data.map(callback)\<close>: the elements are visited in order and an exception thrown by
  the callback leaves \<^verbatim>\<open>map\<close> at once, so no array is returned.
\<close>

fun templates :: "string \<Rightarrow> string \<Rightarrow> 'c descriptor list \<Rightarrow> error + 'c mapping list" where
  "templates dirname BUILD_DIR [] = Inr []"
| "templates dirname BUILD_DIR (v # vs) =
     (case template_entry dirname BUILD_DIR v of
        Inl e \<Rightarrow> Inl e
      | Inr m \<Rightarrow>
          (case templates dirname BUILD_DIR vs of
             Inl e \<Rightarrow> Inl e
           | Inr ms \<Rightarrow> Inr (m # ms)))"


subsection \<open>Notions used to state the properties\<close>

text \<open>
  The definitions of this subsection are not translations of the source. They follow the
  wording of the specification (its segment, its trailing segment, the final segment and
  the absoluteness of a path) and are compared with the source's functions below.
\<close>

text \<open>The last segment without its trailing separator, when it has one.\<close>

definition segment_name :: "string \<Rightarrow> string" where
  "segment_name p2 = (if endsWith_slash p2 then butlast p2 else p2)"

text \<open>
  The segment of the specification: one or more characters of the segment class, the first
  of them a letter, a digit or an underscore, optionally followed by one trailing separator.
\<close>

definition segment_shape :: "string \<Rightarrow> bool" where
  "segment_shape seg \<longleftrightarrow>
     (case segment_name seg of
        [] \<Rightarrow> False
      | c # cs \<Rightarrow> is_word c \<and> list_all is_segment_char cs)"

text \<open>Some suffix of the slug is such a segment.\<close>

fun has_trailing_segment :: "string \<Rightarrow> bool" where
  "has_trailing_segment [] = False"
| "has_trailing_segment (c # cs) = (segment_shape (c # cs) \<or> has_trailing_segment cs)"

text \<open>The final path segment of a destination: the text after its last separator.\<close>

definition final_segment :: "string \<Rightarrow> string" where
  "final_segment d = rev (takeWhile (\<lambda>c. c \<noteq> CHR ''/'') (rev d))"

text \<open>A POSIX path is absolute when it starts with the separator.\<close>

definition is_absolute :: "string \<Rightarrow> bool" where
  "is_absolute p \<longleftrightarrow> (case p of [] \<Rightarrow> False | c # _ \<Rightarrow> c = CHR ''/'')"

text \<open>The path segments of a path: the texts between its separators.\<close>

fun split_path :: "string \<Rightarrow> string list" where
  "split_path [] = [[]]"
| "split_path (c # cs) =
     (if c = CHR ''/'' then [] # split_path cs
      else (case split_path cs of
              [] \<Rightarrow> [[c]]
            | seg # segs \<Rightarrow> (c # seg) # segs))"

text \<open>
  Lexical normalisation of a list of segments, read from the file system root: empty
  segments and \<^verbatim>\<open>.\<close> are skipped, \<^verbatim>\<open>..\<close> drops the directory entered last and stays at the
  root when there is none. The accumulator holds the directories entered so far, the
  last one first.
\<close>

fun resolve_segments :: "string list \<Rightarrow> string list \<Rightarrow> string list" where
  "resolve_segments acc [] = rev acc"
| "resolve_segments acc (seg # segs) =
     (if seg = [] \<or> seg = ''.'' then resolve_segments acc segs
      else if seg = ''..'' then
        resolve_segments (case acc of [] \<Rightarrow> [] | _ # up \<Rightarrow> up) segs
      else resolve_segments (seg # acc) segs)"

text \<open>
  A path lies under a directory when the normalised segments of the directory are the
  first normalised segments of the path.
\<close>

definition rooted_under :: "string \<Rightarrow> string \<Rightarrow> bool" where
  "rooted_under root d \<longleftrightarrow>
     prefix (resolve_segments [] (split_path root)) (resolve_segments [] (split_path d))"


section \<open>Auxiliary facts\<close>

lemma not_word_slash [simp]: "\<not> is_word CHR ''/''"
  by (simp add: is_word_def)

lemma not_word_dot [simp]: "\<not> is_word CHR ''.''"
  by (simp add: is_word_def)

lemma not_segment_char_slash [simp]: "\<not> is_segment_char CHR ''/''"
  by (simp add: is_segment_char_def)

lemma not_line_terminator_slash [simp]: "\<not> is_line_terminator CHR ''/''"
  by (simp add: is_line_terminator_def)

lemma word_not_line_terminator: "is_word c \<Longrightarrow> \<not> is_line_terminator c"
  by (auto simp: is_word_def is_line_terminator_def)

lemma segment_char_not_line_terminator: "is_segment_char c \<Longrightarrow> \<not> is_line_terminator c"
  by (auto simp: is_segment_char_def word_not_line_terminator) (simp_all add: is_line_terminator_def)

lemma match_segment_rest_iff:
  "match_segment_rest cs \<longleftrightarrow>
     list_all is_segment_char cs \<or> (\<exists>b. cs = b @ ''/'' \<and> list_all is_segment_char b)"
proof (induction cs)
  case Nil
  show ?case by simp
next
  case (Cons c cs)
  show ?case
  proof (cases "is_segment_char c")
    case True
    then have "c \<noteq> CHR ''/''" by auto
    with True Cons show ?thesis
      by (auto simp: Cons_eq_append_conv)
  next
    case False
    then show ?thesis
      by (auto simp: Cons_eq_append_conv)
  qed
qed

lemma match_segment_rest_chars:
  "match_segment_rest cs \<Longrightarrow> c \<in> set cs \<Longrightarrow> is_segment_char c \<or> c = CHR ''/''"
  by (auto simp: match_segment_rest_iff list_all_iff)

lemma match_segment_chars:
  "match_segment p2 \<Longrightarrow> c \<in> set p2 \<Longrightarrow> is_segment_char c \<or> c = CHR ''/''"
  by (cases p2) (auto simp: is_segment_char_def dest: match_segment_rest_chars)

lemma match_segment_no_line_terminator:
  "match_segment p2 \<Longrightarrow> c \<in> set p2 \<Longrightarrow> \<not> is_line_terminator c"
  using match_segment_chars segment_char_not_line_terminator not_line_terminator_slash by blast

lemma match_segment_nonempty: "match_segment p2 \<Longrightarrow> p2 \<noteq> []"
  by (cases p2) auto

lemma exec_path_Some:
  "exec_path s = Some (p1, p2) \<Longrightarrow>
     s = p1 @ p2 \<and> match_segment p2 \<and> (\<forall>c \<in> set p1. \<not> is_line_terminator c)"
proof (induction s arbitrary: p1 rule: exec_path.induct)
  case 1
  then show ?case by simp
next
  case (2 c cs)
  then show ?case
    by (auto split: if_splits option.splits)
qed

lemma exec_path_None_iff:
  "exec_path s = None \<longleftrightarrow> \<not> (\<exists>p seg. s = p @ seg \<and> match_segment seg \<and> (\<forall>c \<in> set p. \<not> is_line_terminator c))"
proof (induction s rule: exec_path.induct)
  case 1
  then show ?case by simp
next
  case (2 c cs)
  show ?case
  proof (cases "match_segment (c # cs)")
    case True
    then have "\<exists>p seg. c # cs = p @ seg \<and> match_segment seg \<and> (\<forall>c \<in> set p. \<not> is_line_terminator c)"
      by (intro exI[of _ "[]"] exI[of _ "c # cs"]) simp
    with True show ?thesis by simp
  next
    case nm: False
    show ?thesis
    proof (cases "is_line_terminator c")
      case True
      have "\<not> (\<exists>p seg. c # cs = p @ seg \<and> match_segment seg \<and> (\<forall>c \<in> set p. \<not> is_line_terminator c))"
      proof
        assume "\<exists>p seg. c # cs = p @ seg \<and> match_segment seg \<and> (\<forall>c \<in> set p. \<not> is_line_terminator c)"
        then obtain p seg where h: "c # cs = p @ seg" "match_segment seg" "\<forall>c \<in> set p. \<not> is_line_terminator c"
          by blast
        show False
        proof (cases p)
          case Nil
          with h nm show False by simp
        next
          case (Cons a p')
          with h True show False by simp
        qed
      qed
      with nm True show ?thesis by simp
    next
      case False
      have "(\<exists>p seg. c # cs = p @ seg \<and> match_segment seg \<and> (\<forall>c \<in> set p. \<not> is_line_terminator c))
            \<longleftrightarrow> (\<exists>p seg. cs = p @ seg \<and> match_segment seg \<and> (\<forall>c \<in> set p. \<not> is_line_terminator c))"
        (is "?L \<longleftrightarrow> ?R")
      proof
        assume ?L
        then obtain p seg where h: "c # cs = p @ seg" "match_segment seg" "\<forall>c \<in> set p. \<not> is_line_terminator c"
          by blast
        show ?R
        proof (cases p)
          case Nil
          with h nm show ?thesis by simp
        next
          case (Cons a p')
          with h show ?thesis by auto
        qed
      next
        assume ?R
        then obtain p seg where h: "cs = p @ seg" "match_segment seg" "\<forall>c \<in> set p. \<not> is_line_terminator c"
          by blast
        with False show ?L
          by (intro exI[of _ "c # p"] exI[of _ seg]) simp
      qed
      with 2(1)[OF nm False] nm False show ?thesis
        by (auto split: option.splits)
    qed
  qed
qed

lemma exec_path_segment_nonempty: "exec_path s = Some (p1, p2) \<Longrightarrow> p2 \<noteq> []"
  using exec_path_Some match_segment_nonempty by blast

lemma resolve_Some:
  "exec_path s = Some (p1, p2) \<Longrightarrow> resolve B s = Inr (B @ ''/'' @ rewrite_path1 p1 p2)"
  using exec_path_segment_nonempty [of s p1 p2] by (simp add: resolve_def)

lemma resolve_None:
  "exec_path s = None \<Longrightarrow> resolve B s = Inl (Error (''Incorrect slug: '' @ s))"
  by (simp add: resolve_def)

lemma resolve_Inr_iff:
  "resolve B s = Inr d \<longleftrightarrow>
     (\<exists>p1 p2. exec_path s = Some (p1, p2) \<and> d = B @ ''/'' @ rewrite_path1 p1 p2)"
  by (cases "exec_path s") (auto simp: resolve_None resolve_Some)

lemma resolve_Inl_iff:
  "resolve B s = Inl e \<longleftrightarrow> exec_path s = None \<and> e = Error (''Incorrect slug: '' @ s)"
  by (cases "exec_path s") (auto simp: resolve_None resolve_Some)

lemma replace_ext_strip:
  "ext \<noteq> [] \<Longrightarrow> list_all is_word ext \<Longrightarrow> replace_ext (base @ CHR ''.'' # ext) = base"
  by (induction base) auto


lemma match_segment_rest_slash_more:
  "t \<noteq> [] \<Longrightarrow> \<not> match_segment_rest (q @ CHR ''/'' # t)"
  by (induction q) auto

lemma match_segment_slash_more:
  "t \<noteq> [] \<Longrightarrow> \<not> match_segment (q @ CHR ''/'' # t)"
  by (cases q) (auto simp: match_segment_rest_slash_more)

lemma match_segment_index_html: "match_segment ''index.html''"
  by (simp add: is_word_def is_segment_char_def)


lemma endsWith_slash_butlast: "endsWith_slash p2 \<Longrightarrow> p2 = butlast p2 @ ''/''"
  unfolding endsWith_slash_def by (metis append_butlast_last_id)


lemma rewrite_path1_index: "rewrite_path1 p1 ''index.html'' = p1 @ ''index.html''"
  by (simp add: rewrite_path1_def)

lemma rewrite_path1_suffix: "suffix ''index.html'' (rewrite_path1 p1 p2)"
  by (auto simp: rewrite_path1_def suffix_def)


lemma segment_chars_no_slash: "list_all is_segment_char cs \<Longrightarrow> CHR ''/'' \<notin> set cs"
  by (auto simp: list_all_iff)

lemma segment_name_slash: "segment_name (b @ ''/'') = b"
  by (simp add: segment_name_def endsWith_slash_def)

lemma match_segment_name:
  assumes "match_segment p2"
  shows "segment_name p2 \<noteq> [] \<and> CHR ''/'' \<notin> set (segment_name p2) \<and>
         list_all is_segment_char (segment_name p2) \<and> is_word (hd (segment_name p2)) \<and>
         p2 = (if endsWith_slash p2 then segment_name p2 @ ''/'' else segment_name p2)"
proof -
  from assms obtain c cs where p2: "p2 = c # cs" and w: "is_word c" and r: "match_segment_rest cs"
    by (cases p2) auto
  from w have sc: "is_segment_char c" by (simp add: is_segment_char_def)
  from r consider (plain) "list_all is_segment_char cs"
    | (slash) b where "cs = b @ ''/''" "list_all is_segment_char b"
    by (auto simp: match_segment_rest_iff)
  then show ?thesis
  proof cases
    case plain
    with sc have all: "list_all is_segment_char (c # cs)" by simp
    then have ns: "CHR ''/'' \<notin> set (c # cs)" by (rule segment_chars_no_slash)
    then have "\<not> endsWith_slash (c # cs)"
      unfolding endsWith_slash_def using last_in_set [of "c # cs"] by metis
    with all ns w show ?thesis by (simp add: p2 segment_name_def)
  next
    case slash
    have e: "endsWith_slash ((c # b) @ ''/'')" by (simp add: endsWith_slash_def)
    have n: "segment_name ((c # b) @ ''/'') = c # b" by (rule segment_name_slash)
    from slash(2) sc have all: "list_all is_segment_char (c # b)" by simp
    then have "CHR ''/'' \<notin> set (c # b)" by (rule segment_chars_no_slash)
    with e n all w show ?thesis using slash(1) p2 by simp
  qed
qed

lemma segment_shape_iff: "segment_shape seg \<longleftrightarrow> match_segment seg"
proof
  assume m: "match_segment seg"
  from match_segment_name [OF m] show "segment_shape seg"
    by (cases "segment_name seg") (auto simp: segment_shape_def)
next
  assume s: "segment_shape seg"
  then obtain c cs where n: "segment_name seg = c # cs" and w: "is_word c"
    and a: "list_all is_segment_char cs"
    by (auto simp: segment_shape_def split: list.splits)
  show "match_segment seg"
  proof (cases "endsWith_slash seg")
    case True
    then have "seg = butlast seg @ ''/''" by (rule endsWith_slash_butlast)
    with n True have "seg = c # cs @ ''/''" by (simp add: segment_name_def)
    with w a show ?thesis by (auto simp: match_segment_rest_iff)
  next
    case False
    with n have "seg = c # cs" by (simp add: segment_name_def)
    with w a show ?thesis by (simp add: match_segment_rest_iff)
  qed
qed

lemma has_trailing_segment_iff:
  "has_trailing_segment s \<longleftrightarrow> (\<exists>p seg. s = p @ seg \<and> match_segment seg)"
proof (induction s)
  case Nil
  then show ?case by simp
next
  case (Cons c cs)
  show ?case
  proof
    assume "has_trailing_segment (c # cs)"
    then consider "match_segment (c # cs)" | "has_trailing_segment cs"
      by (auto simp: segment_shape_iff)
    then show "\<exists>p seg. c # cs = p @ seg \<and> match_segment seg"
    proof cases
      case 1
      then show ?thesis by (intro exI[of _ "[]"] exI[of _ "c # cs"]) simp
    next
      case 2
      with Cons obtain p seg where "cs = p @ seg" "match_segment seg" by blast
      then show ?thesis by (intro exI[of _ "c # p"] exI[of _ seg]) simp
    qed
  next
    assume "\<exists>p seg. c # cs = p @ seg \<and> match_segment seg"
    then obtain p seg where h: "c # cs = p @ seg" "match_segment seg" by blast
    show "has_trailing_segment (c # cs)"
    proof (cases p)
      case Nil
      with h have "match_segment (c # cs)" by simp
      then show ?thesis by (simp add: segment_shape_iff)
    next
      case (Cons a p')
      with h have "cs = p' @ seg" by simp
      with h(2) Cons.IH show ?thesis by auto
    qed
  qed
qed

lemma exec_path_None_trailing:
  "exec_path s = None \<longleftrightarrow> \<not> has_trailing_segment s \<or> list_ex is_line_terminator s"
proof -
  have "(\<exists>p seg. s = p @ seg \<and> match_segment seg \<and> (\<forall>c \<in> set p. \<not> is_line_terminator c))
        \<longleftrightarrow> (\<exists>p seg. s = p @ seg \<and> match_segment seg) \<and> \<not> list_ex is_line_terminator s"
    using match_segment_no_line_terminator by (fastforce simp: list_ex_iff)
  then show ?thesis
    by (simp add: exec_path_None_iff has_trailing_segment_iff)
qed

lemmas eval_defs =
  resolve_def rewrite_path1_def endsWith_slash_def
  is_word_def is_segment_char_def is_line_terminator_def

lemma match_segment_rest_append_slash:
  "match_segment_rest (cs @ ''/'') \<longleftrightarrow> list_all is_segment_char cs"
  by (induction cs) auto

lemma match_segment_append_slash:
  "match_segment (t @ ''/'') \<longleftrightarrow> match_segment t \<and> \<not> endsWith_slash t"
proof (cases t)
  case Nil
  then show ?thesis by simp
next
  case (Cons c cs)
  show ?thesis
  proof (cases "is_word c")
    case False
    with Cons show ?thesis by simp
  next
    case True
    then have sc: "is_segment_char c" by (simp add: is_segment_char_def)
    have "match_segment_rest cs \<and> \<not> endsWith_slash (c # cs) \<longleftrightarrow> list_all is_segment_char cs"
    proof
      assume a: "list_all is_segment_char cs"
      with sc have "CHR ''/'' \<notin> set (c # cs)"
        using segment_chars_no_slash [of "c # cs"] by simp
      then have "\<not> endsWith_slash (c # cs)"
        unfolding endsWith_slash_def using last_in_set [of "c # cs"] by metis
      with a show "match_segment_rest cs \<and> \<not> endsWith_slash (c # cs)"
        by (simp add: match_segment_rest_iff)
    next
      assume "match_segment_rest cs \<and> \<not> endsWith_slash (c # cs)"
      then show "list_all is_segment_char cs"
        by (auto simp: match_segment_rest_iff endsWith_slash_def)
    qed
    with True Cons show ?thesis
      by (simp add: match_segment_rest_append_slash)
  qed
qed

lemma exec_path_append_slash:
  "exec_path s = Some (p1, p2) \<Longrightarrow> \<not> endsWith_slash p2 \<Longrightarrow>
     exec_path (s @ ''/'') = Some (p1, p2 @ ''/'')"
proof (induction s arbitrary: p1 rule: exec_path.induct)
  case 1
  then show ?case by simp
next
  case (2 c cs)
  show ?case
  proof (cases "match_segment (c # cs)")
    case True
    with 2(2) have "p1 = []" "p2 = c # cs" by simp_all
    with True 2(3) have "match_segment ((c # cs) @ ''/'')"
      by (simp only: match_segment_append_slash) simp
    then show ?thesis using \<open>p1 = []\<close> \<open>p2 = c # cs\<close> by simp
  next
    case False
    then have nm: "\<not> match_segment ((c # cs) @ ''/'')"
      by (simp only: match_segment_append_slash) simp
    from False 2(2) have nl: "\<not> is_line_terminator c"
      by (auto split: if_splits)
    from False nl 2(2) obtain q where q: "exec_path cs = Some (q, p2)" and p1: "p1 = c # q"
      by (auto split: option.splits)
    from 2(1) [OF False nl q 2(3)] have "exec_path (cs @ ''/'') = Some (q, p2 @ ''/'')" .
    with nm nl p1 show ?thesis by simp
  qed
qed

lemma endsWith_slash_append: "p2 \<noteq> [] \<Longrightarrow> endsWith_slash (p1 @ p2) = endsWith_slash p2"
  by (simp add: endsWith_slash_def)

lemma rewrite_path1_no_dot:
  "match_segment p2 \<Longrightarrow> CHR ''.'' \<notin> set p2 \<Longrightarrow>
     rewrite_path1 p1 p2 = p1 @ segment_name p2 @ ''/index.html''"
  using endsWith_slash_butlast [of p2]
  by (cases "endsWith_slash p2") (simp_all add: rewrite_path1_def segment_name_def)

lemma templates_first_failure:
  "\<forall>u \<in> set vs. \<not> isl (resolve B (slug u)) \<Longrightarrow> resolve B (slug v) = Inl e \<Longrightarrow>
     templates D B (vs @ v # ws) = Inl e"
proof (induction vs)
  case Nil
  then show ?case by (simp add: template_entry_def)
next
  case (Cons u us)
  then obtain d where "resolve B (slug u) = Inr d"
    by (cases "resolve B (slug u)") auto
  with Cons show ?case by (simp add: template_entry_def)
qed

lemma exec_path_leading_slash:
  "exec_path (CHR ''/'' # s) = map_option (\<lambda>(p1, p2). (CHR ''/'' # p1, p2)) (exec_path s)"
  by (cases s) (auto split: option.splits)

lemma rewrite_path1_Cons: "rewrite_path1 (c # p1) p2 = c # rewrite_path1 p1 p2"
  by (simp add: rewrite_path1_def)

lemma resolve_leading_slash:
  "resolve B s = Inr (B @ ''/'' @ r) \<Longrightarrow> resolve B (CHR ''/'' # s) = Inr (B @ ''//'' @ r)"
  by (auto simp: resolve_Inr_iff exec_path_leading_slash rewrite_path1_Cons)

lemma final_segment_suffix:
  assumes "CHR ''/'' \<notin> set f"
  shows "suffix f (final_segment (x @ f))"
proof -
  have "takeWhile (\<lambda>c. c \<noteq> CHR ''/'') (rev f @ rev x)
          = rev f @ takeWhile (\<lambda>c. c \<noteq> CHR ''/'') (rev x)"
    using assms by (intro takeWhile_append2) auto
  then show ?thesis by (simp add: final_segment_def suffix_def)
qed

lemma is_absolute_append: "is_absolute p \<Longrightarrow> is_absolute (p @ q)"
  by (cases p) (simp_all add: is_absolute_def)

lemma templates_Inr_iff:
  "templates D B vs = Inr ms \<longleftrightarrow> list_all2 (\<lambda>v m. template_entry D B v = Inr m) vs ms"
proof (induction vs arbitrary: ms)
  case Nil
  show ?case by auto
next
  case (Cons v vs)
  show ?case
  proof (cases "template_entry D B v")
    case (Inl e)
    then show ?thesis by (simp add: list_all2_Cons1)
  next
    case (Inr m)
    show ?thesis
    proof (cases "templates D B vs")
      case (Inl e)
      with Cons [of "tl ms"] Inr show ?thesis
        by (auto simp: list_all2_Cons1)
    next
      case r: (Inr ms')
      with Cons Inr show ?thesis
        by (auto simp: list_all2_Cons1)
    qed
  qed
qed

lemma template_entry_Inr_iff:
  "template_entry D B v = Inr m \<longleftrightarrow>
     (\<exists>d. resolve B (slug v) = Inr d \<and>
          m = \<lparr>out_from = D @ ''/'' @ template v, out_to = d, out_context = context' v\<rparr>)"
  by (cases "resolve B (slug v)") (auto simp: template_entry_def)

lemma split_path_nonempty [simp]: "split_path s \<noteq> []"
  by (induction s) (auto split: list.splits)

lemma split_path_append:
  "split_path (a @ b) =
     butlast (split_path a) @ (last (split_path a) @ hd (split_path b)) # tl (split_path b)"
proof (induction a)
  case Nil
  show ?case by simp
next
  case (Cons c a)
  show ?case
  proof (cases "c = CHR ''/''")
    case True
    with Cons show ?thesis by simp
  next
    case False
    obtain x xs where x: "split_path a = x # xs"
      by (cases "split_path a") auto
    show ?thesis
      using False Cons x by (cases xs) (simp_all split: list.splits)
  qed
qed

lemma split_path_no_slash: "CHR ''/'' \<notin> set x \<Longrightarrow> split_path x = [x]"
  by (induction x) auto

lemma split_path_append_slash:
  "split_path (a @ CHR ''/'' # b) = split_path a @ split_path b"
  by (induction a) (auto split: list.splits)

lemma resolve_segments_append:
  "resolve_segments acc (xs @ ys) = resolve_segments (rev (resolve_segments acc xs)) ys"
  by (induction xs arbitrary: acc) auto

lemma resolve_segments_no_dotdot:
  "''..'' \<notin> set segs \<Longrightarrow>
     resolve_segments acc segs = rev acc @ filter (\<lambda>s. s \<noteq> [] \<and> s \<noteq> ''.'') segs"
  by (induction segs arbitrary: acc) auto

lemma rooted_under_relative:
  assumes "''..'' \<notin> set (split_path r)"
  shows "rooted_under B (B @ ''/'' @ r)"
proof -
  have "split_path (B @ ''/'' @ r) = split_path B @ split_path r"
    using split_path_append_slash [of B r] by simp
  then have "resolve_segments [] (split_path (B @ ''/'' @ r))
      = resolve_segments [] (split_path B) @ filter (\<lambda>s. s \<noteq> [] \<and> s \<noteq> ''.'') (split_path r)"
    using assms by (simp add: resolve_segments_append resolve_segments_no_dotdot)
  then show ?thesis by (simp add: rooted_under_def)
qed

lemma extended_segment_not_dotdot:
  "c \<noteq> CHR ''.'' \<Longrightarrow> l @ c # x \<noteq> ''..''"
proof
  assume c: "c \<noteq> CHR ''.''" and e: "l @ c # x = ''..''"
  have "c \<in> set (l @ c # x)" by simp
  with e have "c \<in> set ''..''" by metis
  with c show False by simp
qed

lemma split_path_shortened:
  assumes "''..'' \<notin> set (split_path (p1 @ p2))" and "CHR ''/'' \<notin> set (c # x)"
    and "c \<noteq> CHR ''.''"
  shows "''..'' \<notin> set (split_path ((p1 @ c # x) @ ''/index.html''))"
proof -
  have b: "''..'' \<notin> set (butlast (split_path p1))"
    using assms(1) by (simp add: split_path_append [of p1 p2])
  have "split_path (c # x) = [c # x]"
    using assms(2) by (rule split_path_no_slash)
  then have "split_path (p1 @ c # x) = butlast (split_path p1) @ [last (split_path p1) @ c # x]"
    by (simp add: split_path_append [of p1 "c # x"])
  moreover have "last (split_path p1) @ c # x \<noteq> ''..''"
    using assms(3) by (rule extended_segment_not_dotdot)
  ultimately have "''..'' \<notin> set (split_path (p1 @ c # x))"
    using b by auto
  moreover have "split_path ((p1 @ c # x) @ ''/index.html'')
      = split_path (p1 @ c # x) @ [''index.html'']"
    using split_path_append_slash [of "p1 @ c # x" "''index.html''"] by simp
  ultimately show ?thesis by simp
qed

lemma replace_ext_cases:
  "replace_ext s = s \<or>
   (\<exists>ext. s = replace_ext s @ CHR ''.'' # ext \<and> ext \<noteq> [] \<and> list_all is_word ext)"
  by (induction s) auto

lemma word_not_dot: "is_word c \<Longrightarrow> c \<noteq> CHR ''.''"
  using not_word_dot by blast

lemma word_not_slash: "is_word c \<Longrightarrow> c \<noteq> CHR ''/''"
  using not_word_slash by blast

lemma rewrite_path1_no_dotdot:
  assumes e: "exec_path s = Some (p1, p2)" and n: "''..'' \<notin> set (split_path s)"
  shows "''..'' \<notin> set (split_path (rewrite_path1 p1 p2))"
proof -
  from e have s: "s = p1 @ p2" and m: "match_segment p2" using exec_path_Some by blast+
  from n s have n': "''..'' \<notin> set (split_path (p1 @ p2))" by simp
  from m obtain c cs where p2: "p2 = c # cs" and w: "is_word c"
    by (cases p2) auto
  consider (plain) "CHR ''.'' \<notin> set p2"
    | (named) "CHR ''.'' \<in> set p2" "p2 \<noteq> ''index.html''"
    | (resolved) "p2 = ''index.html''"
    by blast
  then show ?thesis
  proof cases
    case plain
    from match_segment_name [OF m] obtain c' x where x: "segment_name p2 = c' # x"
      and ns: "CHR ''/'' \<notin> set (segment_name p2)" and w': "is_word (hd (segment_name p2))"
      by (cases "segment_name p2") auto
    from w' x have "c' \<noteq> CHR ''.''" using word_not_dot by simp
    with split_path_shortened [OF n', of c' x] ns x
    have "''..'' \<notin> set (split_path ((p1 @ segment_name p2) @ ''/index.html''))" by simp
    then show ?thesis
      using rewrite_path1_no_dot [OF m plain, of p1] by simp
  next
    case named
    then have r: "rewrite_path1 p1 p2 = (p1 @ replace_ext p2) @ ''/index.html''"
      by (simp add: rewrite_path1_def)
    from replace_ext_cases [of p2] show ?thesis
    proof
      assume "replace_ext p2 = p2"
      with r s have "rewrite_path1 p1 p2 = s @ ''/index.html''" by simp
      then have "split_path (rewrite_path1 p1 p2) = split_path s @ [''index.html'']"
        using split_path_append_slash [of s "''index.html''"] by simp
      with n show ?thesis by simp
    next
      assume "\<exists>ext. p2 = replace_ext p2 @ CHR ''.'' # ext \<and> ext \<noteq> [] \<and> list_all is_word ext"
      then obtain ext where q: "p2 = replace_ext p2 @ CHR ''.'' # ext" by blast
      from w have cd: "c \<noteq> CHR ''.''" by (rule word_not_dot)
      obtain x where x: "replace_ext p2 = c # x"
      proof (cases "replace_ext p2")
        case Nil
        with q have "p2 = CHR ''.'' # ext" by (metis append_Nil)
        with p2 cd show ?thesis by simp
      next
        case (Cons a y)
        with q have "p2 = a # (y @ CHR ''.'' # ext)" by (metis append_Cons)
        with p2 Cons that show ?thesis by simp
      qed
      have ns: "CHR ''/'' \<notin> set (replace_ext p2)"
      proof
        assume "CHR ''/'' \<in> set (replace_ext p2)"
        then obtain u v where "replace_ext p2 = u @ CHR ''/'' # v"
          by (auto simp: in_set_conv_decomp)
        with q have "p2 = u @ CHR ''/'' # (v @ CHR ''.'' # ext)"
          by (metis append.assoc append_Cons)
        moreover have "\<not> match_segment (u @ CHR ''/'' # (v @ CHR ''.'' # ext))"
          by (rule match_segment_slash_more) simp
        ultimately show False using m by simp
      qed
      from cd split_path_shortened [OF n', of c x] ns x
      have "''..'' \<notin> set (split_path ((p1 @ replace_ext p2) @ ''/index.html''))" by simp
      with r show ?thesis by simp
    qed
  next
    case resolved
    then have "rewrite_path1 p1 p2 = s" by (simp add: rewrite_path1_index s)
    with n show ?thesis by simp
  qed
qed

section \<open>The properties\<close>

subsection \<open>Directory-like segments\<close>

text \<open>
  C1, as stated, fails: the last segment \<^verbatim>\<open>a.b/\<close> ends with a trailing separator, but it
  contains a dot, so the source takes the named-file branch; \<^verbatim>\<open>replace\<close> finds no
  extension at the end and the destination has two separators before \<^verbatim>\<open>index.html\<close>.
\<close>

theorem dotted_trailing_separator_counterexample:
  "exec_path ''a.b/'' = Some ('''', ''a.b/'') \<and> endsWith_slash ''a.b/'' \<and>
   resolve ''/dist'' ''a.b/'' = Inr ''/dist/a.b//index.html'' \<and>
   resolve ''/dist'' ''a.b/'' \<noteq> Inr ''/dist/a.b/index.html''"
  by (simp add: eval_defs)

text \<open>
  C1, amended: for every slug whose last segment contains no dot, with or without a
  trailing separator, the directory branch is taken and the destination is the build
  directory, a separator, the parent prefix, the name of the segment, exactly one
  separator and \<^verbatim>\<open>index.html\<close>. The name is not empty and holds no separator, and the
  segment is the name alone or the name with one separator.
\<close>

theorem directory_like_destination:
  assumes "exec_path s = Some (p1, p2)" and "CHR ''.'' \<notin> set p2"
  shows "resolve B s = Inr (B @ ''/'' @ p1 @ segment_name p2 @ ''/index.html'') \<and>
         segment_name p2 \<noteq> [] \<and> CHR ''/'' \<notin> set (segment_name p2) \<and>
         p2 = (if endsWith_slash p2 then segment_name p2 @ ''/'' else segment_name p2)"
proof -
  from assms(1) have m: "match_segment p2" using exec_path_Some by blast
  from rewrite_path1_no_dot [OF m assms(2)] resolve_Some [OF assms(1)]
  have "resolve B s = Inr (B @ ''/'' @ p1 @ segment_name p2 @ ''/index.html'')" by simp
  with match_segment_name [OF m] show ?thesis by blast
qed

text \<open>
  The theorem at the slug \<^verbatim>\<open>docs/guide/\<close>.
\<close>

theorem directory_like_destination_witness:
  "exec_path ''docs/guide/'' = Some (''docs/'', ''guide/'') \<and> CHR ''.'' \<notin> set ''guide/'' \<and>
   segment_name ''guide/'' = ''guide'' \<and>
   resolve ''/dist'' ''docs/guide/'' = Inr ''/dist/docs/guide/index.html''"
proof -
  have e: "exec_path ''docs/guide/'' = Some (''docs/'', ''guide/'')"
    by (simp add: eval_defs)
  have d: "CHR ''.'' \<notin> set ''guide/''" by simp
  have n: "segment_name ''guide/'' = ''guide''"
    by (simp add: segment_name_def endsWith_slash_def)
  from directory_like_destination [OF e d, of "''/dist''"] e d n show ?thesis by simp
qed

subsection \<open>Named files\<close>

text \<open>
  C2, as stated, fails: the last segment \<^verbatim>\<open>a.b-c\<close> contains a dot and is not
  \<^verbatim>\<open>index.html\<close>, yet nothing is stripped, because the text after the last dot is not
  made of word characters only; stripping from the last dot would give \<^verbatim>\<open>a/index.html\<close>.
\<close>

theorem hyphen_extension_counterexample:
  "exec_path ''a.b-c'' = Some ('''', ''a.b-c'') \<and> CHR ''.'' \<in> set ''a.b-c'' \<and>
   ''a.b-c'' \<noteq> ''index.html'' \<and>
   resolve ''/dist'' ''a.b-c'' = Inr ''/dist/a.b-c/index.html'' \<and>
   resolve ''/dist'' ''a.b-c'' \<noteq> Inr ''/dist/a/index.html''"
  by (simp add: eval_defs)

text \<open>
  C2, amended: for every slug whose last segment is a base, a dot and a non-empty run of
  word characters (letters, digits, underscore), and is not \<^verbatim>\<open>index.html\<close>, the text from
  that dot, which is the last one, to the end is stripped and the destination is the
  build directory, a separator, the parent prefix, the base and \<^verbatim>\<open>/index.html\<close>. In
  particular \<^verbatim>\<open>about/team.html\<close> goes to \<^verbatim>\<open>about/team/index.html\<close> and \<^verbatim>\<open>a.b.c\<close> to
  \<^verbatim>\<open>a.b/index.html\<close> under every build directory.
\<close>

theorem named_file_destination:
  "resolve B ''about/team.html'' = Inr (B @ ''/about/team/index.html'') \<and>
   resolve B ''a.b.c'' = Inr (B @ ''/a.b/index.html'') \<and>
   (exec_path s = Some (p1, base @ CHR ''.'' # ext) \<and> ext \<noteq> [] \<and> list_all is_word ext \<and>
    base @ CHR ''.'' # ext \<noteq> ''index.html'' \<longrightarrow>
      resolve B s = Inr (B @ ''/'' @ p1 @ base @ ''/index.html'') \<and> CHR ''.'' \<notin> set ext)"
proof (intro conjI impI)
  show "resolve B ''about/team.html'' = Inr (B @ ''/about/team/index.html'')"
    by (simp add: eval_defs)
  show "resolve B ''a.b.c'' = Inr (B @ ''/a.b/index.html'')"
    by (simp add: eval_defs)
next
  assume a: "exec_path s = Some (p1, base @ CHR ''.'' # ext) \<and> ext \<noteq> [] \<and>
    list_all is_word ext \<and> base @ CHR ''.'' # ext \<noteq> ''index.html''"
  then have r: "replace_ext (base @ CHR ''.'' # ext) = base"
    by (simp add: replace_ext_strip)
  have "rewrite_path1 p1 (base @ CHR ''.'' # ext) = p1 @ base @ ''/index.html''"
    using a by (simp add: rewrite_path1_def r)
  with a show "resolve B s = Inr (B @ ''/'' @ p1 @ base @ ''/index.html'')"
    using resolve_Some [of s p1 "base @ CHR ''.'' # ext" B] by simp
  from a show "CHR ''.'' \<notin> set ext"
    using not_word_dot by (auto simp: list_all_iff)
qed

text \<open>
  The theorem at the slug \<^verbatim>\<open>docs/faq.html\<close>.
\<close>

theorem named_file_destination_witness:
  "exec_path ''docs/faq.html'' = Some (''docs/'', ''faq'' @ CHR ''.'' # ''html'') \<and>
   list_all is_word ''html'' \<and>
   resolve ''/dist'' ''docs/faq.html'' = Inr ''/dist/docs/faq/index.html''"
proof -
  have e: "exec_path ''docs/faq.html'' = Some (''docs/'', ''faq'' @ CHR ''.'' # ''html'')"
    by (simp add: eval_defs)
  have w: "list_all is_word ''html''" by (simp add: is_word_def)
  from named_file_destination [of "''/dist''" "''docs/faq.html''" "''docs/''" "''faq''" "''html''"] e w
  show ?thesis by simp
qed

subsection \<open>Segments without a dot\<close>

text \<open>
  C3: for every slug whose last segment contains no dot, the destination is the slug
  without its trailing separator, followed by exactly one separator and \<^verbatim>\<open>index.html\<close>,
  under the build directory; the slug with a separator appended resolves to the same
  destination as the slug without one. In particular \<^verbatim>\<open>about\<close> and \<^verbatim>\<open>about/\<close> both go to
  \<^verbatim>\<open>about/index.html\<close>.
\<close>

theorem no_dot_single_separator:
  "resolve B ''about'' = Inr (B @ ''/about/index.html'') \<and>
   resolve B ''about/'' = Inr (B @ ''/about/index.html'') \<and>
   (exec_path s = Some (p1, p2) \<and> CHR ''.'' \<notin> set p2 \<longrightarrow>
      resolve B s = Inr (B @ ''/'' @ segment_name s @ ''/index.html'') \<and>
      \<not> endsWith_slash (segment_name s) \<and>
      (\<not> endsWith_slash s \<longrightarrow> resolve B (s @ ''/'') = resolve B s))"
proof (intro conjI impI)
  show "resolve B ''about'' = Inr (B @ ''/about/index.html'')"
    by (simp add: eval_defs)
  show "resolve B ''about/'' = Inr (B @ ''/about/index.html'')"
    by (simp add: eval_defs)
next
  assume a: "exec_path s = Some (p1, p2) \<and> CHR ''.'' \<notin> set p2"
  then have e: "exec_path s = Some (p1, p2)" and d: "CHR ''.'' \<notin> set p2" by simp_all
  from e have s: "s = p1 @ p2" and m: "match_segment p2" using exec_path_Some by blast+
  from m have ne: "p2 \<noteq> []" by (rule match_segment_nonempty)
  have es: "endsWith_slash s = endsWith_slash p2"
    using ne by (simp add: s endsWith_slash_append)
  have sn: "segment_name s = p1 @ segment_name p2"
    using ne es by (simp add: segment_name_def s butlast_append)
  have r: "resolve B s = Inr (B @ ''/'' @ p1 @ segment_name p2 @ ''/index.html'')"
    using rewrite_path1_no_dot [OF m d] resolve_Some [OF e] by simp
  then show "resolve B s = Inr (B @ ''/'' @ segment_name s @ ''/index.html'')"
    by (simp add: sn)
  have nn: "segment_name p2 \<noteq> []" and ns: "CHR ''/'' \<notin> set (segment_name p2)"
    using match_segment_name [OF m] by simp_all
  have "last (segment_name p2) \<in> set (segment_name p2)" using nn by simp
  with ns have "last (segment_name p2) \<noteq> CHR ''/''" by metis
  with nn show "\<not> endsWith_slash (segment_name s)"
    by (simp add: sn endsWith_slash_def)
  assume "\<not> endsWith_slash s"
  with es have np: "\<not> endsWith_slash p2" by simp
  from exec_path_append_slash [OF e np]
  have e': "exec_path (s @ ''/'') = Some (p1, p2 @ ''/'')" .
  then have m': "match_segment (p2 @ ''/'')" using exec_path_Some by blast
  from d have d': "CHR ''.'' \<notin> set (p2 @ ''/'')" by simp
  have "resolve B (s @ ''/'') = Inr (B @ ''/'' @ p1 @ segment_name (p2 @ ''/'') @ ''/index.html'')"
    using rewrite_path1_no_dot [OF m' d'] resolve_Some [OF e'] by simp
  also have "segment_name (p2 @ ''/'') = segment_name p2"
    using np by (simp add: segment_name_slash) (simp add: segment_name_def)
  finally show "resolve B (s @ ''/'') = resolve B s" using r by simp
qed

text \<open>
  The theorem at the slug \<^verbatim>\<open>blog/posts\<close>.
\<close>

theorem no_dot_single_separator_witness:
  "exec_path ''blog/posts'' = Some (''blog/'', ''posts'') \<and> CHR ''.'' \<notin> set ''posts'' \<and>
   resolve ''/dist'' ''blog/posts'' = Inr ''/dist/blog/posts/index.html'' \<and>
   resolve ''/dist'' ''blog/posts/'' = Inr ''/dist/blog/posts/index.html''"
proof -
  have e: "exec_path ''blog/posts'' = Some (''blog/'', ''posts'')"
    by (simp add: eval_defs)
  have d: "CHR ''.'' \<notin> set ''posts''" by simp
  have n: "segment_name ''blog/posts'' = ''blog/posts''" "\<not> endsWith_slash ''blog/posts''"
    by (simp_all add: segment_name_def endsWith_slash_def)
  from no_dot_single_separator [of "''/dist''" "''blog/posts''" "''blog/''" "''posts''"] e d n
  show ?thesis by simp
qed

subsection \<open>Already resolved files and idempotence\<close>




subsection \<open>Failure\<close>

text \<open>
  C5, as stated, fails: the slug made of \<^verbatim>\<open>a\<close>, a line feed and \<^verbatim>\<open>b\<close> has the trailing
  segment \<^verbatim>\<open>b\<close>, but the first group of the pattern cannot cross the line feed and the
  source throws.
\<close>

theorem line_terminator_counterexample:
  "has_trailing_segment [CHR ''a'', CHR 0x0A, CHR ''b''] \<and>
   resolve ''/dist'' [CHR ''a'', CHR 0x0A, CHR ''b'']
     = Inl (Error (''Incorrect slug: '' @ [CHR ''a'', CHR 0x0A, CHR ''b'']))"
  by (simp add: eval_defs segment_shape_def segment_name_def)

text \<open>
  C5, amended: resolution fails, with the error whose message is \<^verbatim>\<open>Incorrect slug: \<close>
  followed by the slug, exactly when the slug has no trailing segment of the
  specification's shape or contains a line terminator; that is the only error, and the
  empty slug fails. When a descriptor fails and the ones before it do not, the whole
  list yields that descriptor's error and no list of mappings, whatever follows.
\<close>

theorem resolve_fails_iff:
  "(resolve B s = Inl (Error (''Incorrect slug: '' @ s))
      \<longleftrightarrow> \<not> has_trailing_segment s \<or> list_ex is_line_terminator s) \<and>
   (resolve B s = Inl e \<longrightarrow> e = Error (''Incorrect slug: '' @ s)) \<and>
   resolve B [] = Inl (Error ''Incorrect slug: '') \<and>
   ((\<forall>u \<in> set vs. \<not> isl (resolve B (slug u))) \<and> isl (resolve B (slug v)) \<longrightarrow>
      templates D B (vs @ v # ws) = Inl (Error (''Incorrect slug: '' @ slug v)))"
proof (intro conjI impI)
  show "resolve B s = Inl (Error (''Incorrect slug: '' @ s))
      \<longleftrightarrow> \<not> has_trailing_segment s \<or> list_ex is_line_terminator s"
    by (simp add: resolve_Inl_iff exec_path_None_trailing)
  show "resolve B [] = Inl (Error ''Incorrect slug: '')"
    by (simp add: resolve_def)
next
  assume "resolve B s = Inl e"
  then show "e = Error (''Incorrect slug: '' @ s)" by (simp add: resolve_Inl_iff)
next
  assume a: "(\<forall>u \<in> set vs. \<not> isl (resolve B (slug u))) \<and> isl (resolve B (slug v))"
  then obtain e where e: "resolve B (slug v) = Inl e"
    by (cases "resolve B (slug v)") auto
  then have "e = Error (''Incorrect slug: '' @ slug v)" by (simp add: resolve_Inl_iff)
  with a e show "templates D B (vs @ v # ws) = Inl (Error (''Incorrect slug: '' @ slug v))"
    using templates_first_failure [of vs B v e D ws] by simp
qed

text \<open>
  The theorem at the slug \<^verbatim>\<open>about//\<close>, alone and as the second of three descriptors.
\<close>

theorem resolve_fails_iff_witness:
  "\<not> has_trailing_segment ''about//'' \<and>
   resolve ''/dist'' ''about//'' = Inl (Error ''Incorrect slug: about//'') \<and>
   templates ''/site'' ''/dist''
     [\<lparr>slug = ''home'', template = ''home.njk'', context' = (1::nat)\<rparr>,
      \<lparr>slug = ''about//'', template = ''about.njk'', context' = 2\<rparr>,
      \<lparr>slug = ''blog'', template = ''blog.njk'', context' = 3\<rparr>]
     = Inl (Error ''Incorrect slug: about//'')"
proof -
  have h: "\<not> has_trailing_segment ''about//''"
    by (simp add: eval_defs segment_shape_def segment_name_def)
  have ok: "\<forall>u \<in> set [\<lparr>slug = ''home'', template = ''home.njk'', context' = (1::nat)\<rparr>].
              \<not> isl (resolve ''/dist'' (slug u))"
    by (simp add: eval_defs)
  from resolve_fails_iff [of "''/dist''" "''about//''" "Error ''Incorrect slug: about//''"
      "[\<lparr>slug = ''home'', template = ''home.njk'', context' = (1::nat)\<rparr>]"
      "\<lparr>slug = ''about//'', template = ''about.njk'', context' = 2\<rparr>"
      "''/site''"
      "[\<lparr>slug = ''blog'', template = ''blog.njk'', context' = 3\<rparr>]"] h ok
  show ?thesis by simp
qed

subsection \<open>The lone separator\<close>

text \<open>
  C6, as stated, fails: the pattern needs a word character, the slug \<^verbatim>\<open>/\<close> has none,
  and the source throws instead of returning \<^verbatim>\<open>index.html\<close> under the build directory.
\<close>

theorem lone_separator_counterexample:
  "resolve ''/dist'' ''/'' \<noteq> Inr ''/dist/index.html'' \<and>
   resolve ''/dist'' ''/'' = Inl (Error ''Incorrect slug: /'')"
  by (simp add: eval_defs)

text \<open>
  C6, amended: the slug that is just a separator does not resolve; under every build
  directory it fails with the error \<^verbatim>\<open>Incorrect slug: /\<close>.
\<close>

theorem lone_separator_fails:
  "exec_path ''/'' = None \<and> resolve B ''/'' = Inl (Error ''Incorrect slug: /'')"
  by (simp add: eval_defs)

subsection \<open>The leading separator\<close>

text \<open>
  C7 at the slug \<^verbatim>\<open>/about\<close>: the leading separator is not removed (the result of
  \<^verbatim>\<open>value.slug.replace('^/', '')\<close> is dropped), it stays in the first group and the
  destination differs from the one of \<^verbatim>\<open>about\<close> by a doubled separator.
\<close>

theorem leading_separator_kept:
  "resolve ''/dist'' ''about'' = Inr ''/dist/about/index.html'' \<and>
   resolve ''/dist'' ''/about'' = Inr ''/dist//about/index.html'' \<and>
   resolve ''/dist'' (''/'' @ ''about'') \<noteq> resolve ''/dist'' ''about''"
  by (simp add: eval_defs)

subsection \<open>Shape of a destination\<close>

text \<open>
  C8, as stated, fails: the first group of the pattern accepts any text, so the slug
  \<^verbatim>\<open>../x\<close> resolves, and its destination \<^verbatim>\<open>/dist/../x/index.html\<close> names the file
  \<^verbatim>\<open>/x/index.html\<close>, which is not under the build directory \<^verbatim>\<open>/dist\<close>.
\<close>

theorem parent_segment_counterexample:
  "resolve ''/dist'' ''../x'' = Inr ''/dist/../x/index.html'' \<and>
   resolve_segments [] (split_path ''/dist/../x/index.html'') = [''x'', ''index.html''] \<and>
   \<not> rooted_under ''/dist'' ''/dist/../x/index.html''"
  by (simp add: eval_defs rooted_under_def)

text \<open>
  C8, amended: every destination is the build directory, a separator and a relative
  part, so it starts with the build directory and a separator and is absolute when the
  build directory is; its final path segment contains a dot; and it lies under the build
  directory whenever no path segment of the slug is \<^verbatim>\<open>..\<close>.
\<close>

theorem destination_rooted_dotted:
  "resolve B s = Inr d \<longrightarrow>
     prefix (B @ ''/'') d \<and> (is_absolute B \<longrightarrow> is_absolute d) \<and>
     CHR ''.'' \<in> set (final_segment d) \<and>
     (''..'' \<notin> set (split_path s) \<longrightarrow> rooted_under B d)"
proof
  assume "resolve B s = Inr d"
  then obtain p1 p2 where e: "exec_path s = Some (p1, p2)"
    and d: "d = B @ ''/'' @ rewrite_path1 p1 p2"
    by (auto simp: resolve_Inr_iff)
  from rewrite_path1_suffix [of p1 p2] obtain x where x: "rewrite_path1 p1 p2 = x @ ''index.html''"
    by (auto simp: suffix_def)
  have "suffix ''index.html'' (final_segment ((B @ ''/'' @ x) @ ''index.html''))"
    by (rule final_segment_suffix) simp
  then have "set ''index.html'' \<subseteq> set (final_segment d)"
    unfolding d x by (auto simp: suffix_def)
  then have dot: "CHR ''.'' \<in> set (final_segment d)" by auto
  have pre: "prefix (B @ ''/'') d" by (simp add: d)
  have ab: "is_absolute B \<longrightarrow> is_absolute d"
    by (simp add: d is_absolute_append)
  have "''..'' \<notin> set (split_path s) \<longrightarrow> rooted_under B d"
    unfolding d using rewrite_path1_no_dotdot [OF e] rooted_under_relative by blast
  with pre ab dot
  show "prefix (B @ ''/'') d \<and> (is_absolute B \<longrightarrow> is_absolute d) \<and>
     CHR ''.'' \<in> set (final_segment d) \<and>
     (''..'' \<notin> set (split_path s) \<longrightarrow> rooted_under B d)"
    by blast
qed

text \<open>
  The theorem at the slug \<^verbatim>\<open>docs/api.html\<close> under \<^verbatim>\<open>/srv/site/dist\<close>.
\<close>

theorem destination_rooted_dotted_witness:
  "resolve ''/srv/site/dist'' ''docs/api.html'' = Inr ''/srv/site/dist/docs/api/index.html'' \<and>
   is_absolute ''/srv/site/dist'' \<and>
   ''..'' \<notin> set (split_path ''docs/api.html'') \<and>
   prefix ''/srv/site/dist/'' ''/srv/site/dist/docs/api/index.html'' \<and>
   is_absolute ''/srv/site/dist/docs/api/index.html'' \<and>
   final_segment ''/srv/site/dist/docs/api/index.html'' = ''index.html'' \<and>
   rooted_under ''/srv/site/dist'' ''/srv/site/dist/docs/api/index.html''"
proof -
  have r: "resolve ''/srv/site/dist'' ''docs/api.html'' = Inr ''/srv/site/dist/docs/api/index.html''"
    by (simp add: eval_defs)
  have a: "is_absolute ''/srv/site/dist''" by (simp add: is_absolute_def)
  have n: "''..'' \<notin> set (split_path ''docs/api.html'')" by simp
  have f: "final_segment ''/srv/site/dist/docs/api/index.html'' = ''index.html''"
    by (simp add: final_segment_def)
  from destination_rooted_dotted [of "''/srv/site/dist''" "''docs/api.html''" "''/srv/site/dist/docs/api/index.html''"] r a n f
  show ?thesis by simp
qed

subsection \<open>The list of mappings\<close>

text \<open>
  C9: the list of descriptors yields a list of mappings exactly when every slug
  resolves; that list has the same length, and its element at each position is built
  from the descriptor at that position alone: its template under the module directory,
  the destination of its slug, and its context unchanged.
\<close>

theorem templates_pointwise:
  "templates D B vs = Inr ms \<longleftrightarrow>
     length ms = length vs \<and>
     (\<forall>i < length vs. \<exists>d. resolve B (slug (vs ! i)) = Inr d \<and>
        ms ! i = \<lparr>out_from = D @ ''/'' @ template (vs ! i), out_to = d,
                  out_context = context' (vs ! i)\<rparr>)"
  by (auto simp: templates_Inr_iff list_all2_conv_all_nth template_entry_Inr_iff)

text \<open>
  The theorem at a list of two descriptors.
\<close>

theorem templates_pointwise_witness:
  "templates ''/site'' ''/site/dist''
     [\<lparr>slug = ''about'', template = ''page.njk'', context' = ''A''\<rparr>,
      \<lparr>slug = ''blog/post.html'', template = ''post.njk'', context' = ''B''\<rparr>]
   = Inr [\<lparr>out_from = ''/site/page.njk'', out_to = ''/site/dist/about/index.html'',
            out_context = ''A''\<rparr>,
          \<lparr>out_from = ''/site/post.njk'', out_to = ''/site/dist/blog/post/index.html'',
            out_context = ''B''\<rparr>]"
proof -
  have r1: "resolve ''/site/dist'' ''about'' = Inr ''/site/dist/about/index.html''"
    by (simp add: eval_defs)
  have r2: "resolve ''/site/dist'' ''blog/post.html'' = Inr ''/site/dist/blog/post/index.html''"
    by (simp add: eval_defs)
  show ?thesis
    unfolding templates_pointwise using r1 r2 by (simp add: less_Suc_eq nth_Cons')
qed

subsection \<open>The appended file name\<close>

text \<open>
  C10: every destination ends with the text \<^verbatim>\<open>index.html\<close>; each branch keeps the first
  group and appends to it a text that ends with \<^verbatim>\<open>index.html\<close>.
\<close>

theorem destination_ends_index_html:
  "(resolve B s = Inr d \<longrightarrow> suffix ''index.html'' d) \<and>
   prefix p1 (rewrite_path1 p1 p2) \<and>
   suffix ''index.html'' (drop (length p1) (rewrite_path1 p1 p2))"
proof (intro conjI impI)
  assume "resolve B s = Inr d"
  then obtain q1 q2 where "d = (B @ ''/'') @ rewrite_path1 q1 q2"
    by (auto simp: resolve_Inr_iff)
  with rewrite_path1_suffix [of q1 q2] show "suffix ''index.html'' d"
    using suffix_append by blast
next
  show "prefix p1 (rewrite_path1 p1 p2)"
    by (simp add: rewrite_path1_def)
  show "suffix ''index.html'' (drop (length p1) (rewrite_path1 p1 p2))"
    by (auto simp: rewrite_path1_def suffix_def)
qed

text \<open>
  The theorem at the slug \<^verbatim>\<open>img/logo.v2.png\<close>.
\<close>

theorem destination_ends_index_html_witness:
  "resolve ''/dist'' ''img/logo.v2.png'' = Inr ''/dist/img/logo.v2/index.html'' \<and>
   suffix ''index.html'' ''/dist/img/logo.v2/index.html''"
proof -
  have r: "resolve ''/dist'' ''img/logo.v2.png'' = Inr ''/dist/img/logo.v2/index.html''"
    by (simp add: eval_defs)
  from destination_ends_index_html [of "''/dist''" "''img/logo.v2.png''" "''/dist/img/logo.v2/index.html''"] r
  show ?thesis by simp
qed

end
